theory Spec2Isabelle
  imports Complex_Main "HOL-Library.AList"
begin

section \<open>Activation capture and preference scoring of \<^verbatim>\<open>generate_acts.py\<close>\<close>

text \<open>
  The script drives a causal language model that lives outside the repository (the
  tokenizer, the transformer blocks, the language-model head). That runtime is an
  environment: a record of functions that answer or raise. Everything the script itself
  does (creating hooks, registering them, reading their slots, stacking, removing the
  handles, unpacking loop variables, indexing lists, looping over chunks) is a definition
  below, with every Python exception as an \<open>Inl\<close> value.
\<close>

subsection \<open>Values and errors\<close>

datatype error =
  ValueError | TypeError | IndexError | KeyError | RuntimeError
  | Fault nat  \<comment> \<open>an exception raised inside the runtime (tokenizer, forward pass)\<close>

text \<open>
  A scalar of a tensor is a floating-point number, hence a real number; the arithmetic on
  them (normalisation, reduction, conversion) is the tensor library's, rounded as the
  library rounds, and is part of the environment.
  A hidden-state tensor has shape (batch, position, width); one activation vector is
  the list of its \<open>width\<close> scalars. A block returns a tuple of components: the first
  is a tensor, the others (a key/value cache, attention weights) are opaque here.
\<close>

type_synonym vec = "real list"
type_synonym tensor3 = "vec list list"
type_synonym tokens = "nat list"

datatype pyobj = Tensor tensor3 | Opaque

record env =
  encode :: "string \<Rightarrow> error + tokens"
    \<comment> \<open>\<^verbatim>\<open>tokenizer.encode(text, return_tensors="pt").to(device)\<close>\<close>
  num_layers :: nat
    \<comment> \<open>\<^verbatim>\<open>len(model.model.layers)\<close>\<close>
  block_out :: "tokens \<Rightarrow> nat \<Rightarrow> error + pyobj list"
    \<comment> \<open>the output tuple of block \<open>k\<close> on an input, or the exception it raises\<close>
  lm_logits :: "tokens \<Rightarrow> error + tensor3"
    \<comment> \<open>\<^verbatim>\<open>outputs.logits\<close>: shape (batch, position, vocabulary)\<close>
  to_float :: "real \<Rightarrow> real"
    \<comment> \<open>\<^verbatim>\<open>.float()\<close> on one scalar\<close>
  softmax_row :: "vec \<Rightarrow> vec"
    \<comment> \<open>the tensor library's softmax of one row, in the precision of the model\<close>
  tensor_sum :: "tensor3 \<Rightarrow> real"
    \<comment> \<open>\<^verbatim>\<open>t.sum\<close>: the library's reduction of all entries of a tensor to one scalar\<close>

text \<open>
  The mutable part: the Hook objects (one slot \<open>out\<close> each, addressed by their position
  in \<open>slots\<close>), the forward hooks registered on the blocks (handle id, block, Hook
  reference; in registration order), and the handle counter. \<open>trace\<close> is a ghost
  field: the inputs of the forward passes started so far, oldest first.
\<close>

record mstate =
  slots :: "pyobj option list"
  registry :: "(nat \<times> nat \<times> nat) list"
  next_handle :: nat
  trace :: "tokens list"

subsection \<open>The class \<^verbatim>\<open>Hook\<close>\<close>

text \<open>\<^verbatim>\<open>Hook()\<close>: a new object whose slot holds \<^verbatim>\<open>None\<close>.\<close>

definition Hook_init :: "mstate \<Rightarrow> nat \<times> mstate" where
  "Hook_init st = (length (slots st), st\<lparr>slots := slots st @ [None]\<rparr>)"

text \<open>
  \<^verbatim>\<open>self.out, _ = module_outputs\<close>: the right-hand side is unpacked into exactly two
  targets, so a tuple of any other length raises \<^verbatim>\<open>ValueError\<close> before anything
  is assigned.
\<close>

fun Hook_call :: "nat \<Rightarrow> pyobj list \<Rightarrow> mstate \<Rightarrow> error + mstate" where
  "Hook_call self [out, aux] st = Inr (st\<lparr>slots := (slots st)[self := Some out]\<rparr>)"
| "Hook_call self module_outputs st = Inl ValueError"

subsection \<open>The runtime: block selection, hook registration, forward pass\<close>

text \<open>
  \<^verbatim>\<open>model.model.layers[layer]\<close>: a module list is indexed like a Python list, a
  negative index counting from the end, anything outside \<open>[-n, n)\<close> raising.
\<close>

definition layers_getitem :: "nat \<Rightarrow> int \<Rightarrow> error + nat" where
  "layers_getitem n layer =
     (if 0 \<le> layer \<and> layer < int n then Inr (nat layer)
      else if layer < 0 \<and> - int n \<le> layer then Inr (nat (int n + layer))
      else Inl IndexError)"

definition register_forward_hook :: "nat \<Rightarrow> nat \<Rightarrow> mstate \<Rightarrow> nat \<times> mstate" where
  "register_forward_hook block hook st =
     (next_handle st,
      st\<lparr>registry := registry st @ [(next_handle st, block, hook)],
         next_handle := Suc (next_handle st)\<rparr>)"

text \<open>\<^verbatim>\<open>handle.remove()\<close>: the entry under the handle's id is deleted if it is there.\<close>

definition handle_remove :: "nat \<Rightarrow> mstate \<Rightarrow> mstate" where
  "handle_remove handle st = st\<lparr>registry := filter (\<lambda>r. fst r \<noteq> handle) (registry st)\<rparr>"

text \<open>After a block has computed its output, its forward hooks run in registration order.\<close>

fun run_hooks :: "(nat \<times> nat \<times> nat) list \<Rightarrow> nat \<Rightarrow> pyobj list \<Rightarrow> mstate \<Rightarrow> (error + unit) \<times> mstate" where
  "run_hooks [] block outs st = (Inr (), st)"
| "run_hooks ((handle, b, hook) # rs) block outs st =
     (if b = block then
        (case Hook_call hook outs st of
           Inl e \<Rightarrow> (Inl e, st)
         | Inr st' \<Rightarrow> run_hooks rs block outs st')
      else run_hooks rs block outs st)"

text \<open>
  The blocks run in order. An exception (in a block or in a hook) leaves the state as
  it was at that moment: the slots written by earlier blocks stay written.
\<close>

fun run_blocks :: "env \<Rightarrow> tokens \<Rightarrow> nat list \<Rightarrow> mstate \<Rightarrow> (error + unit) \<times> mstate" where
  "run_blocks E ids [] st = (Inr (), st)"
| "run_blocks E ids (k # ks) st =
     (case block_out E ids k of
        Inl e \<Rightarrow> (Inl e, st)
      | Inr outs \<Rightarrow>
          (case run_hooks (registry st) k outs st of
             (Inl e, st') \<Rightarrow> (Inl e, st')
           | (Inr u, st') \<Rightarrow> run_blocks E ids ks st'))"

text \<open>\<^verbatim>\<open>model(input_ids)\<close>: every block, then the head. The result is the logits.\<close>

definition forward :: "env \<Rightarrow> tokens \<Rightarrow> mstate \<Rightarrow> (error + tensor3) \<times> mstate" where
  "forward E ids st =
     (case run_blocks E ids [0..<num_layers E] (st\<lparr>trace := trace st @ [ids]\<rparr>) of
        (Inl e, st') \<Rightarrow> (Inl e, st')
      | (Inr u, st') \<Rightarrow>
          (case lm_logits E ids of
             Inl e \<Rightarrow> (Inl e, st')
           | Inr lg \<Rightarrow> (Inr lg, st')))"

subsection \<open>\<^verbatim>\<open>get_acts\<close>\<close>

text \<open>
  Lines 52 to 56: one new Hook per entry of \<open>layers\<close>, registered on the block the
  entry selects. The Hook is created before the block is looked up, so an invalid entry
  raises with the hooks of the earlier entries already registered.
\<close>

fun attach_hooks ::
  "env \<Rightarrow> int list \<Rightarrow> nat list \<times> nat list \<Rightarrow> mstate \<Rightarrow> (error + nat list \<times> nat list) \<times> mstate" where
  "attach_hooks E [] hh st = (Inr hh, st)"
| "attach_hooks E (layer # ls) (hooks, handles) st =
     (case Hook_init st of
        (hook, st1) \<Rightarrow>
          (case layers_getitem (num_layers E) layer of
             Inl e \<Rightarrow> (Inl e, st1)
           | Inr block \<Rightarrow>
               (case register_forward_hook block hook st1 of
                  (handle, st2) \<Rightarrow>
                    attach_hooks E ls (hooks @ [hook], handles @ [handle]) st2)))"

text \<open>
  The dictionary \<open>acts\<close> is an association list in insertion order.
  \<^verbatim>\<open>{layer : [] for layer in layers}\<close> inserts the keys from left to right; a key
  that occurs again keeps its place.
\<close>

type_synonym acts = "(int \<times> vec list) list"

definition acts_init :: "int list \<Rightarrow> acts" where
  "acts_init layers = fold (\<lambda>layer d. AList.update layer [] d) layers []"

text \<open>
  \<^verbatim>\<open>hook.out[0, -1]\<close>: the vector at the last position of the first batch entry.
  \<^verbatim>\<open>None\<close> (the hook never ran) and a non-tensor cannot be subscripted this way;
  an empty batch or an empty sequence has no such entry.
\<close>

definition slot_get :: "mstate \<Rightarrow> nat \<Rightarrow> pyobj option" where
  "slot_get st hook = (if hook < length (slots st) then slots st ! hook else None)"

fun last_token :: "pyobj option \<Rightarrow> error + vec" where
  "last_token None = Inl TypeError"
| "last_token (Some Opaque) = Inl TypeError"
| "last_token (Some (Tensor [])) = Inl IndexError"
| "last_token (Some (Tensor (row # rows))) =
     (if row = [] then Inl IndexError else Inr (last row))"

text \<open>Lines 64 and 65: \<^verbatim>\<open>acts[layer].append(hook.out[0, -1])\<close> over the zipped lists.\<close>

fun read_hooks :: "(int \<times> nat) list \<Rightarrow> mstate \<Rightarrow> acts \<Rightarrow> error + acts" where
  "read_hooks [] st acts = Inr acts"
| "read_hooks ((layer, hook) # rest) st acts =
     (case map_of acts layer of
        None \<Rightarrow> Inl KeyError
      | Some xs \<Rightarrow>
          (case last_token (slot_get st hook) of
             Inl e \<Rightarrow> Inl e
           | Inr v \<Rightarrow> read_hooks rest st (AList.update layer (xs @ [v]) acts)))"

text \<open>Lines 60 to 65: tokenize, run the model, read every hook; one statement after the other.\<close>

fun collect_acts ::
  "env \<Rightarrow> int list \<Rightarrow> nat list \<Rightarrow> string list \<Rightarrow> acts \<Rightarrow> mstate \<Rightarrow> (error + acts) \<times> mstate" where
  "collect_acts E layers hooks [] acts st = (Inr acts, st)"
| "collect_acts E layers hooks (statement # rest) acts st =
     (case encode E statement of
        Inl e \<Rightarrow> (Inl e, st)
      | Inr input_ids \<Rightarrow>
          (case forward E input_ids st of
             (Inl e, st') \<Rightarrow> (Inl e, st')
           | (Inr lg, st') \<Rightarrow>
               (case read_hooks (zip layers hooks) st' acts of
                  Inl e \<Rightarrow> (Inl e, st')
                | Inr acts' \<Rightarrow> collect_acts E layers hooks rest acts' st')))"

text \<open>
  \<^verbatim>\<open>t.stack(act)\<close> needs at least one tensor and the same shape for all of them;
  the result has one row per tensor, in order.
\<close>

fun stack :: "vec list \<Rightarrow> error + vec list" where
  "stack [] = Inl RuntimeError"
| "stack (v # vs) =
     (if list_all (\<lambda>w. length w = length v) vs then Inr (v # vs) else Inl RuntimeError)"

text \<open>Lines 67 and 68: every value of the dictionary is replaced by its stacked, converted form.\<close>

fun stack_all :: "env \<Rightarrow> (int \<times> vec list) list \<Rightarrow> acts \<Rightarrow> error + acts" where
  "stack_all E [] acts = Inr acts"
| "stack_all E ((layer, act) # items) acts =
     (case stack act of
        Inl e \<Rightarrow> Inl e
      | Inr m \<Rightarrow> stack_all E items (AList.update layer (map (map (to_float E)) m) acts))"

text \<open>
  The whole function. The handles are removed by its last loop only: an exception in
  any earlier line leaves the function with the state of that moment.
\<close>

definition get_acts :: "env \<Rightarrow> string list \<Rightarrow> int list \<Rightarrow> mstate \<Rightarrow> (error + acts) \<times> mstate" where
  "get_acts E statements layers st =
     (case attach_hooks E layers ([], []) st of
        (Inl e, st1) \<Rightarrow> (Inl e, st1)
      | (Inr (hooks, handles), st1) \<Rightarrow>
          (case collect_acts E layers hooks statements (acts_init layers) st1 of
             (Inl e, st2) \<Rightarrow> (Inl e, st2)
           | (Inr acts, st2) \<Rightarrow>
               (case stack_all E acts acts of
                  Inl e \<Rightarrow> (Inl e, st2)
                | Inr acts' \<Rightarrow> (Inr acts', fold handle_remove handles st2))))"

subsection \<open>\<^verbatim>\<open>score_probs\<close>\<close>

text \<open>
  Line 80: \<^verbatim>\<open>softmax(-1)\<close> normalises along the last axis, that is every
  vocabulary row on its own, and \<^verbatim>\<open>t.sum\<close> reduces the whole result to one scalar.
\<close>

definition score_probs :: "env \<Rightarrow> string \<Rightarrow> mstate \<Rightarrow> (error + real) \<times> mstate" where
  "score_probs E statement st =
     (case encode E statement of
        Inl e \<Rightarrow> (Inl e, st)
      | Inr input_ids \<Rightarrow>
          (case forward E input_ids st of
             (Inl e, st') \<Rightarrow> (Inl e, st')
           | (Inr logits, st') \<Rightarrow>
               (Inr (tensor_sum E (map (map (softmax_row E)) logits)), st')))"

text \<open>
  The score as the specification words it: the normalisation is applied over the
  vocabulary at every position \<open>(b, p)\<close> of the logits, and the values at all positions
  and all vocabulary entries are reduced to a single scalar.
\<close>

definition spec_score :: "env \<Rightarrow> tensor3 \<Rightarrow> real" where
  "spec_score E lg =
     tensor_sum E
       (map (\<lambda>b. map (\<lambda>p. softmax_row E (lg ! b ! p)) [0..<length (lg ! b)]) [0..<length lg])"

subsection \<open>\<^verbatim>\<open>evaluate\<close>\<close>

text \<open>
  The loop variable \<open>i\<close> of line 88 is whatever the unpacking binds, so indices are
  Python values: an integer or a string. A list subscripted by a string raises
  \<^verbatim>\<open>TypeError\<close>; by an integer it follows the usual rule for negative indices.
\<close>

datatype pyval = PInt int | PStr string

fun list_getitem :: "'a list \<Rightarrow> pyval \<Rightarrow> error + 'a" where
  "list_getitem xs (PStr s) = Inl TypeError"
| "list_getitem xs (PInt i) =
     (if 0 \<le> i \<and> i < int (length xs) then Inr (xs ! nat i)
      else if i < 0 \<and> - int (length xs) \<le> i then Inr (xs ! nat (int (length xs) + i))
      else Inl IndexError)"

fun list_setitem :: "'a list \<Rightarrow> pyval \<Rightarrow> 'a \<Rightarrow> error + 'a list" where
  "list_setitem xs (PStr s) v = Inl TypeError"
| "list_setitem xs (PInt i) v =
     (if 0 \<le> i \<and> i < int (length xs) then Inr (xs[nat i := v])
      else if i < 0 \<and> - int (length xs) \<le> i then Inr (xs[nat (int (length xs) + i) := v])
      else Inl IndexError)"

text \<open>
  \<^verbatim>\<open>for i, statement in statements\<close>: each element of the list, a string, is
  unpacked into the two targets. A string of exactly two characters gives its two
  one-character strings; any other length raises \<^verbatim>\<open>ValueError\<close>.
\<close>

fun unpack_pair :: "string \<Rightarrow> error + pyval \<times> string" where
  "unpack_pair [a, b] = Inr (PStr [a], [b])"
| "unpack_pair s = Inl ValueError"

text \<open>Lines 93 and 94: the list comprehension scores its elements from left to right.\<close>

fun score_all :: "env \<Rightarrow> string list \<Rightarrow> mstate \<Rightarrow> (error + real list) \<times> mstate" where
  "score_all E [] st = (Inr [], st)"
| "score_all E (x # xs) st =
     (case score_probs E x st of
        (Inl e, st') \<Rightarrow> (Inl e, st')
      | (Inr p, st') \<Rightarrow>
          (case score_all E xs st' of
             (Inl e, st'') \<Rightarrow> (Inl e, st'')
           | (Inr ps, st'') \<Rightarrow> (Inr (p # ps), st'')))"

text \<open>\<^verbatim>\<open>max\<close> of a list: an empty one raises \<^verbatim>\<open>ValueError\<close>.\<close>

fun py_max :: "real list \<Rightarrow> error + real" where
  "py_max [] = Inl ValueError"
| "py_max (x # xs) = Inr (fold max xs x)"

text \<open>An entry of \<open>labels\<close> is the initial \<^verbatim>\<open>0\<close> or the outcome of a comparison.\<close>

datatype label = Zero | Label bool

text \<open>
  Lines 89 to 96, the body of the loop for one binding of \<open>i\<close> and \<open>statement\<close>.
  Line 92 iterates over \<open>incorrect_answers\<close> itself, the list with one element per
  statement.
\<close>

definition evaluate_body ::
  "env \<Rightarrow> pyval \<Rightarrow> string \<Rightarrow> string list \<Rightarrow> string list \<Rightarrow> label list \<Rightarrow> mstate
     \<Rightarrow> (error + label list) \<times> mstate" where
  "evaluate_body E i statement correct_answers incorrect_answers labels st =
     (case list_getitem correct_answers i of
        Inl e \<Rightarrow> (Inl e, st)
      | Inr answer \<Rightarrow>
          (case score_probs E (statement @ '' '' @ answer) st of
             (Inl e, st1) \<Rightarrow> (Inl e, st1)
           | (Inr correct_prob, st1) \<Rightarrow>
               (case score_all E (map (\<lambda>incorrect. statement @ '' '' @ incorrect) incorrect_answers) st1 of
                  (Inl e, st2) \<Rightarrow> (Inl e, st2)
                | (Inr incorrect_probs, st2) \<Rightarrow>
                    (case py_max incorrect_probs of
                       Inl e \<Rightarrow> (Inl e, st2)
                     | Inr m \<Rightarrow>
                         (case list_setitem labels i (Label (m < correct_prob)) of
                            Inl e \<Rightarrow> (Inl e, st2)
                          | Inr labels' \<Rightarrow> (Inr labels', st2))))))"

fun evaluate_loop ::
  "env \<Rightarrow> string list \<Rightarrow> string list \<Rightarrow> string list \<Rightarrow> label list \<Rightarrow> mstate
     \<Rightarrow> (error + label list) \<times> mstate" where
  "evaluate_loop E [] correct_answers incorrect_answers labels st = (Inr labels, st)"
| "evaluate_loop E (x # xs) correct_answers incorrect_answers labels st =
     (case unpack_pair x of
        Inl e \<Rightarrow> (Inl e, st)
      | Inr (i, statement) \<Rightarrow>
          (case evaluate_body E i statement correct_answers incorrect_answers labels st of
             (Inl e, st') \<Rightarrow> (Inl e, st')
           | (Inr labels', st') \<Rightarrow>
               evaluate_loop E xs correct_answers incorrect_answers labels' st'))"

definition evaluate ::
  "env \<Rightarrow> string list \<Rightarrow> string list \<Rightarrow> string list \<Rightarrow> mstate \<Rightarrow> (error + label list) \<times> mstate" where
  "evaluate E statements correct_answers incorrect_answers st =
     evaluate_loop E statements correct_answers incorrect_answers
       (replicate (length statements) Zero) st"

subsection \<open>The driver: layer resolution and chunking\<close>

text \<open>Lines 121 and 122, with \<open>n\<close> the number of blocks of the model.\<close>

definition resolve_layers :: "nat \<Rightarrow> int list \<Rightarrow> int list" where
  "resolve_layers n layers = (if layers = [- 1] then map int [0..<n] else layers)"

text \<open>\<^verbatim>\<open>range(idx, stop, 25)\<close>, as the list of its values.\<close>

function range25 :: "nat \<Rightarrow> nat \<Rightarrow> nat list" where
  "range25 idx stop = (if stop \<le> idx then [] else idx # range25 (idx + 25) stop)"
  by pat_completeness auto
termination
  by (relation "measure (\<lambda>(idx, stop). stop - idx)") auto

declare range25.simps [simp del]

text \<open>\<^verbatim>\<open>xs[a:b]\<close> for \<open>0 \<le> a \<le> b\<close>: a slice is cut off at the end of the list.\<close>

definition slice :: "'a list \<Rightarrow> nat \<Rightarrow> nat \<Rightarrow> 'a list" where
  "slice xs a b = take (b - a) (drop a xs)"

text \<open>
  Lines 127 to 134, the loop over the chunk starts. An iteration slices the three lists at
  the same bounds, calls \<^verbatim>\<open>get_acts\<close> and then \<^verbatim>\<open>evaluate\<close> on the chunk, and
  saves one file per layer, named by the layer and the chunk start. An exception in either
  call ends the loop: the files saved by earlier iterations stay, nothing else is written.
\<close>

type_synonym saved = "(int \<times> nat \<times> vec list) list"

fun main_loop ::
  "env \<Rightarrow> int list \<Rightarrow> string list \<Rightarrow> string list \<Rightarrow> string list \<Rightarrow> nat list \<Rightarrow> saved \<Rightarrow> mstate
     \<Rightarrow> (error + unit) \<times> saved \<times> mstate" where
  "main_loop E layers statements correct_answer incorrect_answers [] files st = (Inr (), files, st)"
| "main_loop E layers statements correct_answer incorrect_answers (idx # idxs) files st =
     (case get_acts E (slice statements idx (idx + 25)) layers st of
        (Inl e, st1) \<Rightarrow> (Inl e, files, st1)
      | (Inr acts, st1) \<Rightarrow>
          (case evaluate E (slice statements idx (idx + 25)) (slice correct_answer idx (idx + 25))
                  (slice incorrect_answers idx (idx + 25)) st1 of
             (Inl e, st2) \<Rightarrow> (Inl e, files, st2)
           | (Inr labels, st2) \<Rightarrow>
               main_loop E layers statements correct_answer incorrect_answers idxs
                 (files @ map (\<lambda>(layer, act). (layer, idx, act)) acts) st2))"

text \<open>Lines 120 to 134 for one dataset: the layers are resolved, then the loop runs.\<close>

definition main_dataset ::
  "env \<Rightarrow> int list \<Rightarrow> string list \<Rightarrow> string list \<Rightarrow> string list \<Rightarrow> mstate
     \<Rightarrow> (error + unit) \<times> saved \<times> mstate" where
  "main_dataset E layers_arg statements correct_answer incorrect_answers st =
     main_loop E (resolve_layers (num_layers E) layers_arg) statements correct_answer
       incorrect_answers (range25 0 (length statements)) [] st"

subsection \<open>Notions used in the statements\<close>

text \<open>An entry of \<open>layers\<close> that selects a block, and the block it selects.\<close>

definition valid_layer :: "nat \<Rightarrow> int \<Rightarrow> bool" where
  "valid_layer n layer = (- int n \<le> layer \<and> layer < int n)"

definition block_of :: "nat \<Rightarrow> int \<Rightarrow> nat" where
  "block_of n layer = (if 0 \<le> layer then nat layer else nat (int n + layer))"

text \<open>
  The registry entries that registering one hook per entry of \<open>layers\<close> creates, from handle
  id \<open>h\<close> and Hook reference \<open>s\<close> on.
\<close>

fun new_entries :: "nat \<Rightarrow> nat \<Rightarrow> nat \<Rightarrow> int list \<Rightarrow> (nat \<times> nat \<times> nat) list" where
  "new_entries n h s [] = []"
| "new_entries n h s (layer # ls) = (h, block_of n layer, s) # new_entries n (Suc h) (Suc s) ls"

text \<open>Handle ids are drawn from the counter, so every registered one lies below it.\<close>

definition handles_fresh :: "mstate \<Rightarrow> bool" where
  "handles_fresh st = list_all (\<lambda>r. fst r < next_handle st) (registry st)"

text \<open>A registered hook is a live object: its reference points into the store.\<close>

definition hooks_alive :: "mstate \<Rightarrow> bool" where
  "hooks_alive st = list_all (\<lambda>r. snd (snd r) < length (slots st)) (registry st)"

text \<open>
  A runtime that works on a statement: the tokenizer returns, every block returns a pair
  whose first component is a tensor with a non-empty first batch entry and vectors of
  width \<open>w\<close> at its last position, and the head returns.
\<close>

definition block_ok :: "env \<Rightarrow> nat \<Rightarrow> tokens \<Rightarrow> nat \<Rightarrow> bool" where
  "block_ok E w ids k =
     (case block_out E ids k of
        Inl e \<Rightarrow> False
      | Inr outs \<Rightarrow>
          length outs = 2 \<and>
          (case hd outs of
             Opaque \<Rightarrow> False
           | Tensor t \<Rightarrow> t \<noteq> [] \<and> hd t \<noteq> [] \<and> length (last (hd t)) = w))"

definition model_ok :: "env \<Rightarrow> nat \<Rightarrow> string \<Rightarrow> bool" where
  "model_ok E w s =
     (case encode E s of
        Inl e \<Rightarrow> False
      | Inr ids \<Rightarrow>
          list_all (block_ok E w ids) [0..<num_layers E] \<and>
          (case lm_logits E ids of Inl e \<Rightarrow> False | Inr lg \<Rightarrow> True))"

text \<open>
  The last-token activation of a statement at a block, as the specification defines it:
  the vector at the final sequence position of the block's primary output for that
  statement.
\<close>

definition last_token_activation :: "env \<Rightarrow> string \<Rightarrow> nat \<Rightarrow> vec" where
  "last_token_activation E s k =
     (case encode E s of
        Inl e \<Rightarrow> []
      | Inr ids \<Rightarrow>
          (case block_out E ids k of
             Inr (Tensor t # aux) \<Rightarrow> last (hd t)
           | _ \<Rightarrow> []))"

subsection \<open>A small concrete runtime\<close>

text \<open>
  Two blocks; a token is the code of a character; block \<open>k\<close> maps a token \<open>t\<close> to the
  vector \<open>[t, k]\<close> and returns it with one auxiliary component; the head gives the
  logits \<open>[1, 2]\<close> at every position. Its arithmetic is coarse: the normalisation of a row
  divides by the sum of the row and rounds down to a multiple of a quarter; the
  reduction adds exactly.
\<close>

definition toy_env :: env where
  "toy_env =
     \<lparr>encode = (\<lambda>s. Inr (map of_char s)),
      num_layers = 2,
      block_out = (\<lambda>ids k. Inr [Tensor [map (\<lambda>t. [real t, real k]) ids], Opaque]),
      lm_logits = (\<lambda>ids. Inr [map (\<lambda>t. [1, 2]) ids]),
      to_float = (\<lambda>x. x),
      softmax_row = (\<lambda>row. map (\<lambda>x. of_int \<lfloor>4 * x / sum_list row\<rfloor> / 4) row),
      tensor_sum = (\<lambda>t. sum_list (concat (concat t)))\<rparr>"

text \<open>The same runtime, except that block 0 fails on the input of the statement \<open>''b''\<close>.\<close>

definition faulty_env :: env where
  "faulty_env =
     toy_env\<lparr>block_out := (\<lambda>ids k. if ids = [98] then Inl (Fault 0) else block_out toy_env ids k)\<rparr>"

definition fresh :: mstate where
  "fresh = \<lparr>slots = [], registry = [], next_handle = 0, trace = []\<rparr>"

section \<open>Properties\<close>

subsection \<open>Auxiliary facts: chunk starts\<close>

lemma ceil_div25: "nat \<lceil>real n / 25\<rceil> = (n + 24) div 25"
proof -
  define q r where "q = n div 25" and "r = n mod 25"
  have n: "n = 25 * q + r" and r: "r < 25" by (simp_all add: q_def r_def)
  show ?thesis
  proof (cases "r = 0")
    case True
    then show ?thesis by (simp add: n)
  next
    case False
    have "(n + 24) div 25 = Suc q"
    proof (rule div_nat_eqI)
      show "25 * Suc q \<le> n + 24" using False by (simp add: n)
      show "n + 24 < 25 * Suc (Suc q)" using r by (simp add: n)
    qed
    moreover have "\<lceil>real n / 25\<rceil> = int q + 1"
    proof (rule ceiling_unique)
      show "of_int (int q + 1) - 1 < real n / 25" using False by (simp add: n)
      show "real n / 25 \<le> of_int (int q + 1)" using r by (simp add: n)
    qed
    ultimately show ?thesis by simp
  qed
qed

lemma div25_step:
  assumes "idx < stop"
  shows "(stop - idx + 24) div 25 = Suc ((stop - (idx + 25) + 24) div (25::nat))"
proof (cases "stop - idx < 25")
  case True
  then have z: "stop - (idx + 25) = 0" by simp
  have "(stop - idx + 24) div 25 = 1"
  proof (rule div_nat_eqI)
    show "25 * 1 \<le> stop - idx + 24" using assms by simp
    show "stop - idx + 24 < 25 * Suc 1" using True by simp
  qed
  with z show ?thesis by simp
next
  case False
  have "(x + 25) div 25 = Suc (x div 25)" for x :: nat by simp
  from this [of "stop - (idx + 25) + 24"] have
    "(stop - (idx + 25) + 24 + 25) div 25 = Suc ((stop - (idx + 25) + 24) div 25)" .
  moreover from False have "stop - idx + 24 = (stop - (idx + 25) + 24) + 25" by simp
  ultimately show ?thesis by (simp only:)
qed

lemma range25_eq: "range25 idx stop = map (\<lambda>k. idx + 25 * k) [0..<(stop - idx + 24) div 25]"
proof (induction idx stop rule: range25.induct)
  case (1 idx stop)
  show ?case
  proof (cases "stop \<le> idx")
    case True then show ?thesis by (subst range25.simps) simp
  next
    case False
    define m where "m = (stop - (idx + 25) + 24) div 25"
    from False have "idx < stop" by simp
    then have S: "(stop - idx + 24) div 25 = Suc m"
      unfolding m_def by (rule div25_step)
    from 1 False have IH: "range25 (idx + 25) stop = map (\<lambda>k. idx + 25 + 25 * k) [0..<m]"
      by (simp add: m_def)
    have U: "[0..<Suc m] = 0 # map Suc [0..<m]"
      by (simp only: map_Suc_upt upt_conv_Cons [OF zero_less_Suc])
    have E: "map (\<lambda>k. idx + 25 * k) [0..<Suc m] = idx # map (\<lambda>k. idx + 25 + 25 * k) [0..<m]"
      unfolding U by (simp add: comp_def)
    have "range25 idx stop = idx # range25 (idx + 25) stop"
      using False by (subst range25.simps) simp
    then show ?thesis
      by (simp only: IH S E)
  qed
qed


lemma length_range25: "length (range25 0 n) = (n + 24) div 25"
  by (simp add: range25_eq)

lemma concat_slices:
  "concat (map (\<lambda>idx. slice xs idx (idx + 25)) (range25 i (length xs))) = drop i xs"
proof (induction i "length xs" rule: range25.induct)
  case (1 idx)
  show ?case
  proof (cases "length xs \<le> idx")
    case True then show ?thesis by (subst range25.simps) simp
  next
    case False
    with 1 have IH: "concat (map (\<lambda>idx. slice xs idx (idx + 25)) (range25 (idx + 25) (length xs)))
        = drop (idx + 25) xs" by simp
    have "drop (idx + 25) xs = drop 25 (drop idx xs)"
      by (simp add: add.commute)
    then have T: "take 25 (drop idx xs) @ drop (idx + 25) xs = drop idx xs"
      by (simp only: append_take_drop_id)
    have R: "range25 idx (length xs) = idx # range25 (idx + 25) (length xs)"
      using False by (subst range25.simps) simp
    have "slice xs idx (idx + 25) = take 25 (drop idx xs)"
      by (simp add: slice_def)
    then show ?thesis
      by (simp only: R list.map concat.simps IH T)
  qed
qed

subsection \<open>Auxiliary facts: registering hooks\<close>

lemma upt_add_Suc: "[h..<h + Suc n] = h # [Suc h..<Suc h + n]"
  by (simp add: upt_conv_Cons del: upt_Suc)

lemma layers_getitem_valid:
  "valid_layer n layer \<Longrightarrow> layers_getitem n layer = Inr (block_of n layer)"
  by (auto simp: valid_layer_def layers_getitem_def block_of_def)

lemma layers_getitem_invalid:
  "\<not> valid_layer n layer \<Longrightarrow> layers_getitem n layer = Inl IndexError"
  by (auto simp: valid_layer_def layers_getitem_def)

lemma attach_hooks_valid:
  "list_all (valid_layer (num_layers E)) layers \<Longrightarrow>
   attach_hooks E layers (hooks, handles) st =
     (Inr (hooks @ [length (slots st)..<length (slots st) + length layers],
           handles @ [next_handle st..<next_handle st + length layers]),
      st\<lparr>slots := slots st @ replicate (length layers) None,
         registry := registry st @ new_entries (num_layers E) (next_handle st) (length (slots st)) layers,
         next_handle := next_handle st + length layers\<rparr>)"
proof (induction layers arbitrary: hooks handles st)
  case Nil
  then show ?case by simp
next
  case (Cons layer ls)
  then have v: "valid_layer (num_layers E) layer" and vs: "list_all (valid_layer (num_layers E)) ls"
    by simp_all
  have u1: "[length (slots st)..<length (slots st) + length (layer # ls)]
      = length (slots st) # [Suc (length (slots st))..<Suc (length (slots st)) + length ls]"
    using upt_add_Suc [of "length (slots st)" "length ls"] by simp
  have u2: "[next_handle st..<next_handle st + length (layer # ls)]
      = next_handle st # [Suc (next_handle st)..<Suc (next_handle st) + length ls]"
    using upt_add_Suc [of "next_handle st" "length ls"] by simp
  show ?case
    unfolding u1 u2
    by (simp add: Hook_init_def layers_getitem_valid [OF v] register_forward_hook_def
        Cons.IH [OF vs] replicate_app_Cons_same del: upt_Suc)
qed

lemma attach_hooks_invalid:
  "\<not> list_all (valid_layer (num_layers E)) layers \<Longrightarrow>
   fst (attach_hooks E layers (hooks, handles) st) = Inl IndexError"
proof (induction layers arbitrary: hooks handles st)
  case Nil
  then show ?case by simp
next
  case (Cons layer ls)
  show ?case
  proof (cases "valid_layer (num_layers E) layer")
    case True
    with Cons.prems have "\<not> list_all (valid_layer (num_layers E)) ls" by simp
    from Cons.IH [OF this] show ?thesis
      by (simp add: Hook_init_def layers_getitem_valid [OF True] register_forward_hook_def)
  next
    case False
    then show ?thesis
      by (simp add: Hook_init_def layers_getitem_invalid register_forward_hook_def)
  qed
qed

lemma new_entries_handles: "map fst (new_entries n h s ls) = [h..<h + length ls]"
proof (induction ls arbitrary: h s)
  case Nil
  then show ?case by simp
next
  case (Cons l ls)
  show ?case using upt_add_Suc [of h "length ls"] by (simp add: Cons.IH del: upt_Suc)
qed

lemma new_entries_blocks: "map (\<lambda>r. fst (snd r)) (new_entries n h s ls) = map (block_of n) ls"
  by (induction ls arbitrary: h s) simp_all

lemma new_entries_refs: "map (\<lambda>r. snd (snd r)) (new_entries n h s ls) = [s..<s + length ls]"
proof (induction ls arbitrary: h s)
  case Nil
  then show ?case by simp
next
  case (Cons l ls)
  show ?case using upt_add_Suc [of s "length ls"] by (simp add: Cons.IH del: upt_Suc)
qed

lemma length_new_entries: "length (new_entries n h s ls) = length ls"
  by (induction ls arbitrary: h s) simp_all

lemma new_entries_nth:
  "i < length ls \<Longrightarrow> new_entries n h s ls ! i = (h + i, block_of n (ls ! i), s + i)"
  by (induction ls arbitrary: h s i) (auto simp: nth_Cons split: nat.splits)

lemma list_all_valid_upt: "list_all (valid_layer n) (map int [0..<n])"
  by (simp add: list_all_iff valid_layer_def)

lemma block_of_int: "block_of n (int k) = k"
  by (simp add: block_of_def)

subsection \<open>The Hook\<close>

text \<open>
  C8 (as amended). An invocation of a Hook on a block output of exactly two components, the
  primary output and one auxiliary one, stores the primary output in the Hook's slot,
  whatever the slot held, and changes nothing else: no other slot, no registration, no
  counter, no record of forward passes. On an output of any other length the invocation
  raises \<^verbatim>\<open>ValueError\<close>, and an exception writes nothing.
\<close>

theorem Hook_call_stores_primary:
  "self < length (slots st) \<Longrightarrow>
   (\<exists>st'. Hook_call self [out, aux] st = Inr st' \<and>
      slots st' ! self = Some out \<and>
      length (slots st') = length (slots st) \<and>
      (\<forall>h. h \<noteq> self \<longrightarrow> slots st' ! h = slots st ! h) \<and>
      registry st' = registry st \<and> next_handle st' = next_handle st \<and> trace st' = trace st)
   \<and> (length outs \<noteq> 2 \<longrightarrow> Hook_call self outs st = Inl ValueError)"
proof -
  have "length outs \<noteq> 2 \<Longrightarrow> Hook_call self outs st = Inl ValueError"
    by (cases "(self, outs, st)" rule: Hook_call.cases) auto
  then show "self < length (slots st) \<Longrightarrow> ?thesis" by simp
qed

text \<open>
  The claim as worded speaks of every invocation and of auxiliary outputs in the plural.
  With two auxiliary components (attention weights and a cache, say) nothing is stored.
\<close>

theorem Hook_call_three_outputs_raises:
  "Hook_call 0 [Tensor [[[1]]], Opaque, Opaque] (fresh\<lparr>slots := [None]\<rparr>) = Inl ValueError"
  by simp

theorem Hook_call_stores_primary_witness:
  "(0::nat) < length (slots (fresh\<lparr>slots := [Some Opaque]\<rparr>)) \<and>
   Hook_call 0 [Tensor [[[1]]], Opaque] (fresh\<lparr>slots := [Some Opaque]\<rparr>)
     = Inr (fresh\<lparr>slots := [Some (Tensor [[[1]]])]\<rparr>) \<and>
   Hook_call 0 [Tensor [[[1]]]] (fresh\<lparr>slots := [Some Opaque]\<rparr>) = Inl ValueError"
  using Hook_call_stores_primary [of 0 "fresh\<lparr>slots := [Some Opaque]\<rparr>" "Tensor [[[1]]]" Opaque "[Tensor [[[1]]]]"]
  by (simp add: fresh_def)

subsection \<open>Layer resolution\<close>

text \<open>
  C7. When the layers argument is the one-element list \<open>[-1]\<close>, it is replaced by the full
  range \<open>[0, num_layers)\<close>; this happens in the driver, before \<^verbatim>\<open>get_acts\<close> is
  called, so the registration loop of \<^verbatim>\<open>get_acts\<close> then succeeds and puts exactly one
  hook on every block of the model, in order.
\<close>

theorem sentinel_resolves_to_all_blocks:
  "resolve_layers (num_layers E) [- 1] = map int [0..<num_layers E] \<and>
   (\<exists>hooks handles st1.
      attach_hooks E (resolve_layers (num_layers E) [- 1]) ([], []) st = (Inr (hooks, handles), st1) \<and>
      map (\<lambda>r. fst (snd r)) (registry st1) = map (\<lambda>r. fst (snd r)) (registry st) @ [0..<num_layers E])"
proof -
  have r: "resolve_layers (num_layers E) [- 1] = map int [0..<num_layers E]"
    by (simp add: resolve_layers_def)
  have "map (block_of (num_layers E)) (map int [0..<num_layers E]) = [0..<num_layers E]"
    by (simp add: comp_def block_of_int map_idI)
  then show ?thesis
    unfolding r
    by (simp add: attach_hooks_valid [OF list_all_valid_upt] new_entries_blocks)
qed

text \<open>
  C9. A layers list other than \<open>[-1]\<close> is passed on unchanged. An entry \<open>-1\<close> in such a
  list (all entries selecting a block) reaches the block selection of \<^verbatim>\<open>get_acts\<close>,
  where it registers its hook on the last block, \<open>num_layers - 1\<close>.
\<close>

theorem minus_one_among_others_is_last_block:
  assumes "layers \<noteq> [- 1]" and "i < length layers" and "layers ! i = - 1"
    and "list_all (valid_layer (num_layers E)) layers"
  shows "resolve_layers (num_layers E) layers = layers \<and>
    (\<exists>hooks handles st1.
       attach_hooks E (resolve_layers (num_layers E) layers) ([], []) st = (Inr (hooks, handles), st1) \<and>
       length (registry st1) = length (registry st) + length layers \<and>
       fst (snd (registry st1 ! (length (registry st) + i))) = num_layers E - 1)"
proof -
  have r: "resolve_layers (num_layers E) layers = layers"
    using assms(1) by (simp add: resolve_layers_def)
  have "valid_layer (num_layers E) (- 1)"
    using assms(2-4) by (metis list_all_length)
  then have b: "block_of (num_layers E) (- 1) = num_layers E - 1"
    by (simp add: block_of_def valid_layer_def nat_diff_distrib')
  show ?thesis
    unfolding r using assms(2,3) b
    by (simp add: attach_hooks_valid [OF assms(4)] length_new_entries nth_append new_entries_nth)
qed

theorem minus_one_among_others_witness:
  "[0, - 1] \<noteq> [- 1 :: int] \<and> (1::nat) < length [0, - 1 :: int] \<and> [0, - 1 :: int] ! 1 = - 1 \<and>
   list_all (valid_layer (num_layers toy_env)) [0, - 1] \<and>
   resolve_layers (num_layers toy_env) [0, - 1] = [0, - 1] \<and>
   fst (attach_hooks toy_env [0, - 1] ([], []) fresh) = Inr ([0, 1], [0, 1]) \<and>
   registry (snd (attach_hooks toy_env [0, - 1] ([], []) fresh)) = [(0, 0, 0), (1, 1, 1)]"
  using minus_one_among_others_is_last_block [of "[0, - 1]" 1 toy_env fresh]
  by (simp add: valid_layer_def toy_env_def fresh_def resolve_layers_def Hook_init_def
      layers_getitem_def register_forward_hook_def)

subsection \<open>Auxiliary facts: what a forward pass and the loops leave alone\<close>

lemma Hook_call_frame:
  "Hook_call h outs st = Inr st' \<Longrightarrow>
   registry st' = registry st \<and> next_handle st' = next_handle st \<and> trace st' = trace st \<and>
   length (slots st') = length (slots st)"
  by (cases "(h, outs, st)" rule: Hook_call.cases) auto

lemma run_hooks_frame:
  "registry (snd (run_hooks rs k outs st)) = registry st \<and>
   next_handle (snd (run_hooks rs k outs st)) = next_handle st \<and>
   trace (snd (run_hooks rs k outs st)) = trace st \<and>
   length (slots (snd (run_hooks rs k outs st))) = length (slots st)"
proof (induction rs arbitrary: st)
  case Nil
  show ?case by simp
next
  case (Cons r rs)
  obtain handle b hook where r: "r = (handle, b, hook)" by (cases r) auto
  show ?case
  proof (cases "b = k")
    case False
    then show ?thesis using Cons.IH [of st] by (simp add: r)
  next
    case True
    show ?thesis
    proof (cases "Hook_call hook outs st")
      case (Inl e)
      then show ?thesis by (simp add: r True)
    next
      case (Inr st1)
      from Hook_call_frame [OF Inr] Cons.IH [of st1] show ?thesis
        by (simp add: r True Inr)
    qed
  qed
qed

lemma run_blocks_frame:
  "registry (snd (run_blocks E ids ks st)) = registry st \<and>
   next_handle (snd (run_blocks E ids ks st)) = next_handle st \<and>
   trace (snd (run_blocks E ids ks st)) = trace st \<and>
   length (slots (snd (run_blocks E ids ks st))) = length (slots st)"
proof (induction ks arbitrary: st)
  case Nil
  show ?case by simp
next
  case (Cons k ks)
  show ?case
  proof (cases "block_out E ids k")
    case (Inl e)
    then show ?thesis by simp
  next
    case (Inr outs)
    obtain r st1 where h: "run_hooks (registry st) k outs st = (r, st1)"
      by (cases "run_hooks (registry st) k outs st") auto
    from run_hooks_frame [of "registry st" k outs st] have f: "registry st1 = registry st"
      "next_handle st1 = next_handle st" "trace st1 = trace st" "length (slots st1) = length (slots st)"
      by (simp_all add: h)
    show ?thesis
    proof (cases r)
      case (Inl e)
      then show ?thesis using f by (simp add: Inr h)
    next
      case (Inr u)
      then show ?thesis using f Cons.IH [of st1] by (simp add: \<open>block_out E ids k = Inr outs\<close> h)
    qed
  qed
qed

lemma forward_frame:
  "registry (snd (forward E ids st)) = registry st \<and>
   next_handle (snd (forward E ids st)) = next_handle st \<and>
   trace (snd (forward E ids st)) = trace st @ [ids] \<and>
   length (slots (snd (forward E ids st))) = length (slots st)"
  using run_blocks_frame [of E ids "[0..<num_layers E]" "st\<lparr>trace := trace st @ [ids]\<rparr>"]
  by (auto simp: forward_def split: prod.splits sum.splits)

lemma collect_acts_frame:
  "registry (snd (collect_acts E layers hooks statements acts st)) = registry st \<and>
   next_handle (snd (collect_acts E layers hooks statements acts st)) = next_handle st \<and>
   length (slots (snd (collect_acts E layers hooks statements acts st))) = length (slots st)"
proof (induction statements arbitrary: acts st)
  case Nil
  show ?case by simp
next
  case (Cons s ss)
  show ?case
  proof (cases "encode E s")
    case (Inl e)
    then show ?thesis by simp
  next
    case (Inr ids)
    obtain r st1 where f: "forward E ids st = (r, st1)" by (cases "forward E ids st") auto
    from forward_frame [of E ids st] have fr: "registry st1 = registry st"
      "next_handle st1 = next_handle st" "length (slots st1) = length (slots st)"
      by (simp_all add: f)
    show ?thesis
    proof (cases r)
      case (Inl e)
      then show ?thesis using fr by (simp add: Inr f)
    next
      case r: (Inr lg)
      show ?thesis
      proof (cases "read_hooks (zip layers hooks) st1 acts")
        case (Inl e)
        then show ?thesis using fr by (simp add: Inr f r)
      next
        case a: (Inr acts')
        show ?thesis using fr Cons.IH [of acts' st1] by (simp add: Inr f r a)
      qed
    qed
  qed
qed

lemma fold_handle_remove:
  "fold handle_remove hs st = st\<lparr>registry := filter (\<lambda>r. fst r \<notin> set hs) (registry st)\<rparr>"
proof (induction hs arbitrary: st)
  case Nil
  show ?case by simp
next
  case (Cons h hs)
  have "fold handle_remove (h # hs) st = fold handle_remove hs (handle_remove h st)"
    by simp
  also have "\<dots> = (handle_remove h st)
      \<lparr>registry := filter (\<lambda>r. fst r \<notin> set hs) (registry (handle_remove h st))\<rparr>"
    by (rule Cons.IH)
  also have "\<dots> = st\<lparr>registry := filter (\<lambda>r. fst r \<notin> set (h # hs)) (registry st)\<rparr>"
    by (simp add: handle_remove_def conj_commute)
  finally show ?case .
qed

lemma remove_new_entries:
  assumes "handles_fresh st" and that: "length ls = n"
  shows "filter (\<lambda>r. fst r \<notin> set [next_handle st..<next_handle st + n])
           (registry st @ new_entries m (next_handle st) s ls) 
         = registry st"
proof -
  have a: "filter (\<lambda>r. fst r \<notin> set [next_handle st..<next_handle st + n]) (registry st) = registry st"
    using assms by (auto simp: handles_fresh_def list_all_iff filter_id_conv)
  have "fst ` set (new_entries m (next_handle st) s ls) = set [next_handle st..<next_handle st + n]"
    using new_entries_handles [of m "next_handle st" s ls] that by (metis set_map)
  then have "\<forall>r\<in>set (new_entries m (next_handle st) s ls).
      fst r \<in> set [next_handle st..<next_handle st + n]"
    by blast
  then have b: "filter (\<lambda>r. fst r \<notin> set [next_handle st..<next_handle st + n])
      (new_entries m (next_handle st) s ls) = []"
    by (simp only: filter_empty_conv not_not)
  show ?thesis by (simp only: filter_append a b append_Nil2)
qed

lemma fold_update_head:
  "\<exists>d'. fold (\<lambda>layer d. AList.update layer [] d) ls ((k, []) # d) = (k, []) # d'"
proof (induction ls arbitrary: d)
  case Nil
  show ?case by simp
next
  case (Cons l ls)
  show ?case
  proof (cases "k = l")
    case True
    then show ?thesis using Cons.IH [of d] by simp
  next
    case False
    then show ?thesis using Cons.IH [of "AList.update l [] d"] by simp
  qed
qed

lemma acts_init_head:
  "layers \<noteq> [] \<Longrightarrow> \<exists>rest. acts_init layers = (hd layers, []) # rest"
proof (cases layers)
  case Nil
  assume "layers \<noteq> []"
  with Nil show ?thesis by simp
next
  case (Cons l ls)
  from fold_update_head [of ls l "[]"] show ?thesis
    by (simp add: acts_init_def Cons)
qed

subsection \<open>\<^verbatim>\<open>get_acts\<close>: hook registration\<close>

text \<open>
  C2 (as amended). When every entry of \<open>layers\<close> selects a block, \<^verbatim>\<open>get_acts\<close> registers
  one hook per entry (the registry grows by \<open>len(layers)\<close>), and the registry stays exactly
  so after any number of statements of the batch has been processed. On normal return
  the function has removed precisely the hooks it registered: the registry is what it
  was before the call, hence empty when it was empty. When the function raises after the
  registration (tokenization, forward pass, hook readout, stacking), no handle has been
  removed: all \<open>len(layers)\<close> hooks are still registered.
\<close>

theorem get_acts_hook_count:
  assumes "list_all (valid_layer (num_layers E)) layers" and "handles_fresh st"
  shows "\<exists>hooks handles st1.
           attach_hooks E layers ([], []) st = (Inr (hooks, handles), st1) \<and>
           length (registry st1) = length (registry st) + length layers \<and>
           (\<forall>k. registry (snd (collect_acts E layers hooks (take k statements) (acts_init layers) st1))
                  = registry st1) \<and>
           (case get_acts E statements layers st of
              (Inr acts, st') \<Rightarrow> registry st' = registry st
            | (Inl e, st') \<Rightarrow> registry st' = registry st1)"
proof -
  define hooks where "hooks = [length (slots st)..<length (slots st) + length layers]"
  define handles where "handles = [next_handle st..<next_handle st + length layers]"
  define st1 where "st1 = st\<lparr>slots := slots st @ replicate (length layers) None,
         registry := registry st @ new_entries (num_layers E) (next_handle st) (length (slots st)) layers,
         next_handle := next_handle st + length layers\<rparr>"
  have att: "attach_hooks E layers ([], []) st = (Inr (hooks, handles), st1)"
    using attach_hooks_valid [OF assms(1), of "[]" "[]" st] by (simp add: hooks_def handles_def st1_def)
  have len: "length (registry st1) = length (registry st) + length layers"
    by (simp add: st1_def length_new_entries)
  have during: "registry (snd (collect_acts E layers hooks (take k statements) (acts_init layers) st1))
                  = registry st1" for k
    using collect_acts_frame by blast
  have rem: "registry (fold handle_remove handles st2) = registry st" if "registry st2 = registry st1" for st2
    using remove_new_entries [where st = st and ls = layers and n = "length layers"
        and m = "num_layers E" and s = "length (slots st)", OF assms(2) refl] that
    by (simp add: fold_handle_remove handles_def st1_def)
  obtain r st2 where c: "collect_acts E layers hooks statements (acts_init layers) st1 = (r, st2)"
    by (cases "collect_acts E layers hooks statements (acts_init layers) st1") auto
  have r2: "registry st2 = registry st1"
    using collect_acts_frame [of E layers hooks statements "acts_init layers" st1] by (simp add: c)
  have fin: "(case get_acts E statements layers st of
              (Inr acts, st') \<Rightarrow> registry st' = registry st
            | (Inl e, st') \<Rightarrow> registry st' = registry st1)"
    using r2 rem [OF r2]
    by (simp add: get_acts_def att c split: sum.splits)
  show ?thesis
  proof (intro exI conjI allI)
    show "attach_hooks E layers ([], []) st = (Inr (hooks, handles), st1)" by (rule att)
    show "length (registry st1) = length (registry st) + length layers" by (rule len)
    show "registry (snd (collect_acts E layers hooks (take k statements) (acts_init layers) st1))
                  = registry st1" for k by (rule during)
    show "(case get_acts E statements layers st of
              (Inr acts, st') \<Rightarrow> registry st' = registry st
            | (Inl e, st') \<Rightarrow> registry st' = registry st1)" by (rule fin)
  qed
qed

text \<open>
  The claim as worded has the count back at zero after a failure too. A fault in the
  forward pass of the second statement leaves the hook of layer 0 registered.
\<close>

theorem get_acts_leaks_hook_on_fault:
  "get_acts faulty_env [''a'', ''b''] [0] fresh =
     (Inl (Fault 0),
      \<lparr>slots = [Some (Tensor [[[97, 0]]])], registry = [(0, 0, 0)], next_handle = 1,
         trace = [[97], [98]]\<rparr>)"
  by (simp add: get_acts_def Hook_init_def layers_getitem_def register_forward_hook_def
      acts_init_def faulty_env_def toy_env_def fresh_def forward_def slot_get_def numeral_2_eq_2)

theorem get_acts_hook_count_witness:
  "list_all (valid_layer (num_layers toy_env)) [0, 1] \<and> handles_fresh fresh \<and>
   registry (snd (attach_hooks toy_env [0, 1] ([], []) fresh)) = [(0, 0, 0), (1, 1, 1)] \<and>
   get_acts toy_env [''a''] [0, 1] fresh =
     (Inr [(0, [[97, 0]]), (1, [[97, 1]])],
      \<lparr>slots = [Some (Tensor [[[97, 0]]]), Some (Tensor [[[97, 1]]])], registry = [],
         next_handle = 2, trace = [[97]]\<rparr>)"
  using get_acts_hook_count [of toy_env "[0, 1]" fresh "[''a'']"]
  by (simp add: get_acts_def Hook_init_def layers_getitem_def register_forward_hook_def
      acts_init_def toy_env_def fresh_def forward_def slot_get_def numeral_2_eq_2
      handle_remove_def valid_layer_def handles_fresh_def)

text \<open>
  C10. With no statements and at least one layer, \<^verbatim>\<open>get_acts\<close> does not return: the
  activation list of the first layer is empty, and stacking it raises
  \<^verbatim>\<open>RuntimeError\<close> (when an entry of \<open>layers\<close> selects no block, the registration loop
  has raised \<^verbatim>\<open>IndexError\<close> before that).
\<close>

theorem get_acts_empty_statements_raises:
  assumes "layers \<noteq> []"
  shows "fst (get_acts E [] layers st) =
           Inl (if list_all (valid_layer (num_layers E)) layers then RuntimeError else IndexError)"
proof (cases "list_all (valid_layer (num_layers E)) layers")
  case True
  from acts_init_head [OF assms] obtain rest where a: "acts_init layers = (hd layers, []) # rest"
    by blast
  show ?thesis
    by (simp add: get_acts_def attach_hooks_valid [OF True] True a)
next
  case False
  from attach_hooks_invalid [OF False, of "[]" "[]" st] show ?thesis
    by (auto simp: get_acts_def False split: prod.splits sum.splits)
qed

theorem get_acts_empty_statements_witness:
  "[0 :: int] \<noteq> [] \<and>
   get_acts toy_env [] [0] fresh =
     (Inl RuntimeError, \<lparr>slots = [None], registry = [(0, 0, 0)], next_handle = 1, trace = []\<rparr>) \<and>
   fst (get_acts toy_env [] [5] fresh) = Inl IndexError"
  using get_acts_empty_statements_raises [of "[0]" toy_env fresh]
    get_acts_empty_statements_raises [of "[5]" toy_env fresh]
  by (simp add: get_acts_def Hook_init_def layers_getitem_def register_forward_hook_def
      acts_init_def toy_env_def fresh_def)

subsection \<open>Auxiliary facts: what a forward pass writes into a hook\<close>

lemma block_okD:
  assumes "block_ok E w ids k"
  shows "\<exists>t aux. block_out E ids k = Inr [Tensor t, aux] \<and> t \<noteq> [] \<and> hd t \<noteq> [] \<and>
           length (last (hd t)) = w"
proof -
  from assms obtain outs where o: "block_out E ids k = Inr outs" "length outs = 2"
    and h: "case hd outs of Opaque \<Rightarrow> False
            | Tensor t \<Rightarrow> t \<noteq> [] \<and> hd t \<noteq> [] \<and> length (last (hd t)) = w"
    by (auto simp: block_ok_def split: sum.splits)
  from o(2) obtain a b where ab: "outs = [a, b]"
    by (metis (no_types) length_0_conv length_Suc_conv numeral_2_eq_2)
  from h ab obtain t where "a = Tensor t" "t \<noteq> []" "hd t \<noteq> []" "length (last (hd t)) = w"
    by (cases a) auto
  with o(1) ab show ?thesis by simp
qed

lemma last_token_Tensor:
  "t \<noteq> [] \<Longrightarrow> hd t \<noteq> [] \<Longrightarrow> last_token (Some (Tensor t)) = Inr (last (hd t))"
  by (cases t) auto

lemma run_hooks_pair:
  "\<exists>st'. run_hooks rs k [out, aux] st = (Inr (), st') \<and>
     registry st' = registry st \<and> next_handle st' = next_handle st \<and> trace st' = trace st \<and>
     length (slots st') = length (slots st) \<and>
     (\<forall>r < length (slots st).
        slots st' ! r = (if \<exists>e\<in>set rs. fst (snd e) = k \<and> snd (snd e) = r then Some out else slots st ! r))"
proof (induction rs arbitrary: st)
  case Nil
  show ?case by simp
next
  case (Cons e rs)
  obtain handle b hook where e: "e = (handle, b, hook)" by (cases e) auto
  show ?case
  proof (cases "b = k")
    case False
    from Cons.IH [of st] obtain st' where st': "run_hooks rs k [out, aux] st = (Inr (), st')"
      "registry st' = registry st" "next_handle st' = next_handle st" "trace st' = trace st"
      "length (slots st') = length (slots st)"
      "\<forall>r < length (slots st).
        slots st' ! r = (if \<exists>e\<in>set rs. fst (snd e) = k \<and> snd (snd e) = r then Some out else slots st ! r)"
      by blast
    show ?thesis using st' False by (simp add: e)
  next
    case True
    define st1 where "st1 = st\<lparr>slots := (slots st)[hook := Some out]\<rparr>"
    from Cons.IH [of st1] obtain st' where st': "run_hooks rs k [out, aux] st1 = (Inr (), st')"
      "registry st' = registry st1" "next_handle st' = next_handle st1" "trace st' = trace st1"
      "length (slots st') = length (slots st1)"
      "\<forall>r < length (slots st1).
        slots st' ! r = (if \<exists>e\<in>set rs. fst (snd e) = k \<and> snd (snd e) = r then Some out else slots st1 ! r)"
      by blast
    have "slots st' ! r = (if \<exists>e\<in>set (e # rs). fst (snd e) = k \<and> snd (snd e) = r then Some out else slots st ! r)"
      if "r < length (slots st)" for r
      using st'(6) that by (auto simp: st1_def e True nth_list_update)
    then show ?thesis using st'(1-5) by (simp add: e True st1_def)
  qed
qed

lemma run_blocks_owner:
  assumes "\<forall>k\<in>set ks. \<exists>out aux. block_out E ids k = Inr [out, aux]"
    and "\<forall>e\<in>set (registry st). snd (snd e) = r \<longrightarrow> fst (snd e) = b"
    and "\<exists>e\<in>set (registry st). snd (snd e) = r \<and> fst (snd e) = b"
    and "r < length (slots st)"
  shows "\<exists>st'. run_blocks E ids ks st = (Inr (), st') \<and> registry st' = registry st \<and>
           length (slots st') = length (slots st) \<and>
           slots st' ! r = (if b \<in> set ks then Some (hd (projr (block_out E ids b))) else slots st ! r)"
  using assms
proof (induction ks arbitrary: st)
  case Nil
  show ?case by simp
next
  case (Cons k ks)
  from Cons.prems(1) obtain out aux where o: "block_out E ids k = Inr [out, aux]" by auto
  from run_hooks_pair [of "registry st" k out aux st] obtain st1 where
    h: "run_hooks (registry st) k [out, aux] st = (Inr (), st1)"
    and reg: "registry st1 = registry st" and len: "length (slots st1) = length (slots st)"
    and sl: "\<forall>r < length (slots st).
        slots st1 ! r = (if \<exists>e\<in>set (registry st). fst (snd e) = k \<and> snd (snd e) = r
                          then Some out else slots st ! r)"
    by blast
  have iff: "(\<exists>e\<in>set (registry st). fst (snd e) = k \<and> snd (snd e) = r) \<longleftrightarrow> k = b"
    using Cons.prems(2,3) by blast
  have s1: "slots st1 ! r = (if k = b then Some out else slots st ! r)"
    using sl Cons.prems(4) iff by simp
  have "\<exists>st'. run_blocks E ids ks st1 = (Inr (), st') \<and> registry st' = registry st1 \<and>
           length (slots st') = length (slots st1) \<and>
           slots st' ! r = (if b \<in> set ks then Some (hd (projr (block_out E ids b))) else slots st1 ! r)"
    using Cons.prems by (intro Cons.IH) (simp_all add: reg len)
  then obtain st' where st': "run_blocks E ids ks st1 = (Inr (), st')" "registry st' = registry st1"
    "length (slots st') = length (slots st1)"
    "slots st' ! r = (if b \<in> set ks then Some (hd (projr (block_out E ids b))) else slots st1 ! r)"
    by blast
  have "slots st' ! r = (if b \<in> set (k # ks) then Some (hd (projr (block_out E ids b))) else slots st ! r)"
    using st'(4) s1 o by auto
  then show ?case using st'(1-3) reg len by (simp add: o h)
qed

lemma forward_slot:
  assumes ok: "list_all (block_ok E w ids) [0..<num_layers E]"
    and lg: "lm_logits E ids = Inr lg"
    and own: "\<forall>e\<in>set (registry st). snd (snd e) = r \<longrightarrow> fst (snd e) = b"
    and ex: "\<exists>e\<in>set (registry st). snd (snd e) = r \<and> fst (snd e) = b"
    and r: "r < length (slots st)" and b: "b < num_layers E"
  shows "\<exists>st'. forward E ids st = (Inr lg, st') \<and>
           slots st' ! r = Some (hd (projr (block_out E ids b)))"
proof -
  have pairs: "\<forall>k\<in>set [0..<num_layers E]. \<exists>out aux. block_out E ids k = Inr [out, aux]"
  proof
    fix k assume "k \<in> set [0..<num_layers E]"
    with ok have "block_ok E w ids k" by (simp add: list_all_iff)
    from block_okD [OF this] show "\<exists>out aux. block_out E ids k = Inr [out, aux]" by blast
  qed
  let ?st = "st\<lparr>trace := trace st @ [ids]\<rparr>"
  from run_blocks_owner [OF pairs, of ?st r b] own ex r
  obtain st' where "run_blocks E ids [0..<num_layers E] ?st = (Inr (), st')"
    "slots st' ! r = (if b \<in> set [0..<num_layers E] then Some (hd (projr (block_out E ids b)))
                      else slots ?st ! r)"
    by auto
  with b lg show ?thesis by (simp add: forward_def)
qed

subsection \<open>Auxiliary facts: the dictionary of activations\<close>

lemma update_tab:
  "distinct ls \<Longrightarrow> k \<in> set ls \<Longrightarrow>
   AList.update k v (map (\<lambda>l. (l, f l)) ls) = map (\<lambda>l. (l, (f(k := v)) l)) ls"
proof (induction ls)
  case Nil
  then show ?case by simp
next
  case (Cons a ls)
  show ?case
  proof (cases "a = k")
    case True
    with Cons.prems have "k \<notin> set ls" by simp
    then have "map (\<lambda>l. (l, (f(k := v)) l)) ls = map (\<lambda>l. (l, f l)) ls"
      by (intro map_cong) auto
    with True show ?thesis by simp
  next
    case False
    with Cons show ?thesis by simp
  qed
qed

lemma map_of_tab: "k \<in> set ls \<Longrightarrow> map_of (map (\<lambda>l. (l, f l)) ls) k = Some (f k)"
  by (induction ls) auto

lemma read_hooks_tab:
  assumes "distinct ls" and "fst ` set zs \<subseteq> set ls" and "distinct (map fst zs)"
    and "\<forall>z\<in>set zs. last_token (slot_get st (snd z)) = Inr (g (fst z))"
  shows "read_hooks zs st (map (\<lambda>l. (l, f l)) ls) =
           Inr (map (\<lambda>l. (l, if l \<in> fst ` set zs then f l @ [g l] else f l)) ls)"
  using assms(2-4)
proof (induction zs arbitrary: f)
  case Nil
  show ?case by simp
next
  case (Cons z zs)
  obtain l h where z: "z = (l, h)" by (cases z) auto
  from Cons.prems z have l: "l \<in> set ls" and nl: "l \<notin> fst ` set zs"
    and lt: "last_token (slot_get st h) = Inr (g l)" by auto
  let ?f = "f(l := f l @ [g l])"
  have IH: "read_hooks zs st (map (\<lambda>l. (l, ?f l)) ls) =
           Inr (map (\<lambda>k. (k, if k \<in> fst ` set zs then ?f k @ [g k] else ?f k)) ls)"
    using Cons.prems by (intro Cons.IH) auto
  have "map (\<lambda>k. (k, if k \<in> fst ` set zs then ?f k @ [g k] else ?f k)) ls
      = map (\<lambda>k. (k, if k \<in> fst ` set (z # zs) then f k @ [g k] else f k)) ls"
    using nl by (intro map_cong) (auto simp: z)
  with IH show ?case
    by (simp add: z map_of_tab [OF l] lt update_tab [OF assms(1) l])
qed

lemma read_hooks_zip:
  assumes "distinct ls" and "length hs = length ls"
    and "\<forall>i<length ls. last_token (slot_get st (hs ! i)) = Inr (g (ls ! i))"
  shows "read_hooks (zip ls hs) st (map (\<lambda>l. (l, f l)) ls) = Inr (map (\<lambda>l. (l, f l @ [g l])) ls)"
proof -
  have m: "map fst (zip ls hs) = ls" using assms(2) by simp
  then have s: "fst ` set (zip ls hs) = set ls" by (metis set_map)
  have "\<forall>z\<in>set (zip ls hs). last_token (slot_get st (snd z)) = Inr (g (fst z))"
    using assms(3) by (auto simp: in_set_zip)
  from read_hooks_tab [OF assms(1) _ _ this, of f] m s assms(1)
  have "read_hooks (zip ls hs) st (map (\<lambda>l. (l, f l)) ls) =
           Inr (map (\<lambda>l. (l, if l \<in> set ls then f l @ [g l] else f l)) ls)"
    by simp
  moreover have "map (\<lambda>l. (l, if l \<in> set ls then f l @ [g l] else f l)) ls = map (\<lambda>l. (l, f l @ [g l])) ls"
    by (intro map_cong) auto
  ultimately show ?thesis by simp
qed

lemma stack_uniform: "vs \<noteq> [] \<Longrightarrow> \<forall>v\<in>set vs. length v = w \<Longrightarrow> stack vs = Inr vs"
  by (cases vs) (auto simp: list_all_iff)

lemma stack_all_tab:
  assumes "distinct ls" and "fst ` set items \<subseteq> set ls" and "distinct (map fst items)"
    and "\<forall>z\<in>set items. stack (snd z) = Inr (snd z)"
  shows "stack_all E items (map (\<lambda>l. (l, f l)) ls) =
           Inr (map (\<lambda>l. (l, case map_of items l of
                                Some y \<Rightarrow> map (map (to_float E)) y | None \<Rightarrow> f l)) ls)"
  using assms(2-4)
proof (induction items arbitrary: f)
  case Nil
  show ?case by simp
next
  case (Cons z items)
  obtain k y where z: "z = (k, y)" by (cases z) auto
  from Cons.prems z have k: "k \<in> set ls" and nk: "k \<notin> fst ` set items"
    and st: "stack y = Inr y" by auto
  let ?f = "f(k := map (map (to_float E)) y)"
  have IH: "stack_all E items (map (\<lambda>l. (l, ?f l)) ls) =
           Inr (map (\<lambda>l. (l, case map_of items l of
                                Some y \<Rightarrow> map (map (to_float E)) y | None \<Rightarrow> ?f l)) ls)"
    using Cons.prems by (intro Cons.IH) auto
  from nk have none: "map_of items k = None" by (simp add: map_of_eq_None_iff)
  have "map (\<lambda>l. (l, case map_of items l of Some y \<Rightarrow> map (map (to_float E)) y | None \<Rightarrow> ?f l)) ls
      = map (\<lambda>l. (l, case map_of (z # items) l of
                        Some y \<Rightarrow> map (map (to_float E)) y | None \<Rightarrow> f l)) ls"
    using none by (intro map_cong) (auto simp: z split: option.splits)
  with IH show ?case
    by (simp add: z st update_tab [OF assms(1) k])
qed

lemma stack_all_self:
  assumes "distinct ls" and "\<forall>l\<in>set ls. stack (f l) = Inr (f l)"
  shows "stack_all E (map (\<lambda>l. (l, f l)) ls) (map (\<lambda>l. (l, f l)) ls) =
           Inr (map (\<lambda>l. (l, map (map (to_float E)) (f l))) ls)"
proof -
  let ?items = "map (\<lambda>l. (l, f l)) ls"
  have m: "map fst ?items = ls" by (simp add: comp_def)
  have "stack_all E ?items (map (\<lambda>l. (l, f l)) ls) =
           Inr (map (\<lambda>l. (l, case map_of ?items l of
                                Some y \<Rightarrow> map (map (to_float E)) y | None \<Rightarrow> f l)) ls)"
    using assms by (intro stack_all_tab) (auto simp: comp_def)
  moreover have "map (\<lambda>l. (l, case map_of ?items l of
                                Some y \<Rightarrow> map (map (to_float E)) y | None \<Rightarrow> f l)) ls
      = map (\<lambda>l. (l, map (map (to_float E)) (f l))) ls"
    by (intro map_cong) (auto simp: map_of_tab)
  ultimately show ?thesis by simp
qed

lemma acts_init_tab: "distinct ls \<Longrightarrow> acts_init ls = map (\<lambda>l. (l, [])) ls"
proof -
  have "distinct (map fst d @ ls) \<Longrightarrow>
        fold (\<lambda>layer d. AList.update layer [] d) ls d = d @ map (\<lambda>l. (l, [])) ls" for d :: acts
  proof (induction ls arbitrary: d)
    case Nil
    show ?case by simp
  next
    case (Cons l ls)
    from Cons.prems have "l \<notin> fst ` set d" by auto
    then have u: "AList.update l [] d = d @ [(l, [])]"
      by (induction d) auto
    from Cons.prems have "distinct (map fst (d @ [(l, [])]) @ ls)" by auto
    from Cons.IH [OF this] show ?case by (simp add: u)
  qed
  from this [of "[]"] show "distinct ls \<Longrightarrow> acts_init ls = map (\<lambda>l. (l, [])) ls"
    by (simp add: acts_init_def)
qed

lemma model_okD:
  assumes "model_ok E w s"
  shows "\<exists>ids lg. encode E s = Inr ids \<and> list_all (block_ok E w ids) [0..<num_layers E] \<and>
           lm_logits E ids = Inr lg"
  using assms by (auto simp: model_ok_def split: sum.splits)

lemma activation_of_block:
  assumes "encode E s = Inr ids" and "block_out E ids k = Inr [Tensor t, aux]"
  shows "last_token_activation E s k = last (hd t)"
  using assms by (simp add: last_token_activation_def)

lemma valid_block_of: "valid_layer n l \<Longrightarrow> block_of n l < n"
  by (auto simp: valid_layer_def block_of_def)

lemma run_blocks_pairs:
  assumes "\<forall>k\<in>set ks. \<exists>out aux. block_out E ids k = Inr [out, aux]"
  shows "fst (run_blocks E ids ks st) = Inr ()"
  using assms
proof (induction ks arbitrary: st)
  case Nil
  show ?case by simp
next
  case (Cons k ks)
  from Cons.prems obtain out aux where o: "block_out E ids k = Inr [out, aux]" by auto
  from run_hooks_pair [of "registry st" k out aux st] obtain st1 where
    h: "run_hooks (registry st) k [out, aux] st = (Inr (), st1)" by blast
  from Cons.IH [of st1] Cons.prems show ?case by (simp add: o h)
qed

lemma forward_ok:
  assumes "list_all (block_ok E w ids) [0..<num_layers E]" and "lm_logits E ids = Inr lg"
  shows "fst (forward E ids st) = Inr lg"
proof -
  have "\<forall>k\<in>set [0..<num_layers E]. \<exists>out aux. block_out E ids k = Inr [out, aux]"
  proof
    fix k assume "k \<in> set [0..<num_layers E]"
    with assms(1) have "block_ok E w ids k" by (simp add: list_all_iff)
    from block_okD [OF this] show "\<exists>out aux. block_out E ids k = Inr [out, aux]" by blast
  qed
  from run_blocks_pairs [OF this, of "st\<lparr>trace := trace st @ [ids]\<rparr>"] assms(2)
  show ?thesis by (auto simp: forward_def split: prod.splits sum.splits)
qed

lemma collect_acts_tab:
  assumes d: "distinct layers" and v: "list_all (valid_layer (num_layers E)) layers"
    and lh: "length hooks = length layers"
    and wired: "\<forall>i<length layers. hooks ! i < L \<and>
        (\<exists>e\<in>set R. snd (snd e) = hooks ! i \<and> fst (snd e) = block_of (num_layers E) (layers ! i)) \<and>
        (\<forall>e\<in>set R. snd (snd e) = hooks ! i \<longrightarrow> fst (snd e) = block_of (num_layers E) (layers ! i))"
    and ok: "list_all (model_ok E w) statements"
    and st: "registry st = R" "length (slots st) = L"
  shows "\<exists>st'. collect_acts E layers hooks statements (map (\<lambda>l. (l, f l)) layers) st =
           (Inr (map (\<lambda>l. (l, f l @ map (\<lambda>s. last_token_activation E s (block_of (num_layers E) l))
                                       statements)) layers), st')"
  using ok st
proof (induction statements arbitrary: f st)
  case Nil
  show ?case by simp
next
  case (Cons s ss)
  from Cons.prems(1) have oks: "model_ok E w s" and okss: "list_all (model_ok E w) ss" by simp_all
  from model_okD [OF oks] obtain ids lg where ids: "encode E s = Inr ids"
    and blocks: "list_all (block_ok E w ids) [0..<num_layers E]" and lg: "lm_logits E ids = Inr lg"
    by blast
  obtain r st2 where fw: "forward E ids st = (r, st2)" by (cases "forward E ids st") auto
  from forward_frame [of E ids st] fw Cons.prems(2,3)
  have st2: "registry st2 = R" "length (slots st2) = L" by simp_all
  let ?g = "\<lambda>l. last_token_activation E s (block_of (num_layers E) l)"
  have slot: "last_token (slot_get st2 (hooks ! i)) = Inr (?g (layers ! i))"
    if i: "i < length layers" for i
  proof -
    let ?b = "block_of (num_layers E) (layers ! i)"
    from v i have "valid_layer (num_layers E) (layers ! i)" by (simp add: list_all_length)
    then have b: "?b < num_layers E" by (rule valid_block_of)
    from wired i Cons.prems(2,3) have own: "\<forall>e\<in>set (registry st). snd (snd e) = hooks ! i \<longrightarrow> fst (snd e) = ?b"
      and ex: "\<exists>e\<in>set (registry st). snd (snd e) = hooks ! i \<and> fst (snd e) = ?b"
      and h: "hooks ! i < length (slots st)" by simp_all
    from forward_slot [OF blocks lg own ex h b] fw
    have sl: "slots st2 ! (hooks ! i) = Some (hd (projr (block_out E ids ?b)))"
      by simp
    from blocks b have "block_ok E w ids ?b" by (simp add: list_all_iff)
    from block_okD [OF this] obtain t aux where t: "block_out E ids ?b = Inr [Tensor t, aux]"
      "t \<noteq> []" "hd t \<noteq> []" by blast
    from h st2 Cons.prems(3) have "slot_get st2 (hooks ! i) = Some (Tensor t)"
      by (simp add: slot_get_def sl t)
    then show ?thesis
      using last_token_Tensor [OF t(2,3)] activation_of_block [OF ids t(1)] by simp
  qed
  from forward_ok [OF blocks lg, of st] fw have r: "r = Inr lg" by simp
  have rd: "read_hooks (zip layers hooks) st2 (map (\<lambda>l. (l, f l)) layers) =
      Inr (map (\<lambda>l. (l, f l @ [?g l])) layers)"
    using slot by (intro read_hooks_zip d lh) simp
  from Cons.IH [OF okss st2, of "\<lambda>l. f l @ [?g l]"] obtain st' where
    "collect_acts E layers hooks ss (map (\<lambda>l. (l, f l @ [?g l])) layers) st2 =
       (Inr (map (\<lambda>l. (l, (f l @ [?g l]) @ map (\<lambda>s. last_token_activation E s (block_of (num_layers E) l)) ss)) layers), st')"
    by blast
  then show ?case by (simp add: ids fw r rd)
qed


lemma wired_after_attach:
  assumes "hooks_alive st" and i: "i < length layers"
    and R_def: "R = registry st @ new_entries n (next_handle st) (length (slots st)) layers"
    and hooks_def: "hooks = [length (slots st)..<length (slots st) + length layers]"
  shows "hooks ! i < length (slots st) + length layers \<and>
        (\<exists>e\<in>set R. snd (snd e) = hooks ! i \<and> fst (snd e) = block_of n (layers ! i)) \<and>
        (\<forall>e\<in>set R. snd (snd e) = hooks ! i \<longrightarrow> fst (snd e) = block_of n (layers ! i))"
proof -
  let ?s = "length (slots st)" and ?new = "new_entries n (next_handle st) (length (slots st)) layers"
  have hi: "hooks ! i = ?s + i" using i by (simp add: hooks_def)
  have ni: "?new ! i = (next_handle st + i, block_of n (layers ! i), ?s + i)"
    using i by (rule new_entries_nth)
  have "?new ! i \<in> set ?new" using i by (simp add: length_new_entries)
  then have ex: "\<exists>e\<in>set R. snd (snd e) = hooks ! i \<and> fst (snd e) = block_of n (layers ! i)"
    unfolding R_def hi using ni by (metis UnCI fst_conv set_append snd_conv)
  have own: "fst (snd e) = block_of n (layers ! i)" if e: "e \<in> set R" and ref: "snd (snd e) = hooks ! i" for e
  proof -
    from e consider "e \<in> set (registry st)" | "e \<in> set ?new" by (auto simp: R_def)
    then show ?thesis
    proof cases
      case 1
      with assms(1) have "snd (snd e) < ?s" by (simp add: hooks_alive_def list_all_iff)
      with ref hi show ?thesis by simp
    next
      case 2
      then obtain j where j: "j < length layers" "e = ?new ! j"
        by (metis in_set_conv_nth length_new_entries)
      with ref hi have "j = i" by (simp add: new_entries_nth)
      with j ni show ?thesis by simp
    qed
  qed
  show ?thesis using hi i ex own by auto
qed

lemma activation_width:
  assumes "model_ok E w s" and "k < num_layers E"
  shows "length (last_token_activation E s k) = w"
proof -
  from model_okD [OF assms(1)] obtain ids where ids: "encode E s = Inr ids"
    and blocks: "list_all (block_ok E w ids) [0..<num_layers E]" by blast
  from blocks assms(2) have "block_ok E w ids k" by (simp add: list_all_iff)
  from block_okD [OF this] obtain t aux where "block_out E ids k = Inr [Tensor t, aux]"
    "length (last (hd t)) = w" by blast
  then show ?thesis using activation_of_block [OF ids] by simp
qed

lemma get_acts_value:
  assumes ne: "statements \<noteq> []" and d: "distinct layers"
    and v: "list_all (valid_layer (num_layers E)) layers"
    and ok: "list_all (model_ok E w) statements" and alive: "hooks_alive st"
  shows "\<exists>st'. get_acts E statements layers st =
           (Inr (map (\<lambda>l. (l, map (\<lambda>s. map (to_float E)
                                 (last_token_activation E s (block_of (num_layers E) l))) statements))
                   layers), st')"
proof -
  let ?n = "num_layers E"
  define hooks where "hooks = [length (slots st)..<length (slots st) + length layers]"
  define handles where "handles = [next_handle st..<next_handle st + length layers]"
  define R where "R = registry st @ new_entries ?n (next_handle st) (length (slots st)) layers"
  define st1 where "st1 = st\<lparr>slots := slots st @ replicate (length layers) None,
         registry := R, next_handle := next_handle st + length layers\<rparr>"
  let ?g = "\<lambda>l s. last_token_activation E s (block_of ?n l)"
  have att: "attach_hooks E layers ([], []) st = (Inr (hooks, handles), st1)"
    using attach_hooks_valid [OF v, of "[]" "[]" st]
    by (simp add: hooks_def handles_def st1_def R_def)
  have lh: "length hooks = length layers" by (simp add: hooks_def)
  have wired: "\<forall>i<length layers. hooks ! i < length (slots st) + length layers \<and>
        (\<exists>e\<in>set R. snd (snd e) = hooks ! i \<and> fst (snd e) = block_of ?n (layers ! i)) \<and>
        (\<forall>e\<in>set R. snd (snd e) = hooks ! i \<longrightarrow> fst (snd e) = block_of ?n (layers ! i))"
    using wired_after_attach [OF alive _ R_def hooks_def] by blast
  have st1: "registry st1 = R" "length (slots st1) = length (slots st) + length layers"
    by (simp_all add: st1_def)
  from collect_acts_tab [OF d v lh wired ok st1, of "\<lambda>l. []"] obtain st2 where
    col: "collect_acts E layers hooks statements (map (\<lambda>l. (l, [])) layers) st1 =
            (Inr (map (\<lambda>l. (l, map (?g l) statements)) layers), st2)"
    by auto
  have "stack (map (?g l) statements) = Inr (map (?g l) statements)" if "l \<in> set layers" for l
  proof (rule stack_uniform [where w = w])
    show "map (?g l) statements \<noteq> []" using ne by simp
    from that v have "block_of ?n l < ?n" by (simp add: list_all_iff valid_block_of)
    with ok show "\<forall>v\<in>set (map (?g l) statements). length v = w"
      by (auto simp: list_all_iff activation_width)
  qed
  then have stk: "stack_all E (map (\<lambda>l. (l, map (?g l) statements)) layers)
        (map (\<lambda>l. (l, map (?g l) statements)) layers) =
      Inr (map (\<lambda>l. (l, map (map (to_float E)) (map (?g l) statements))) layers)"
    by (intro stack_all_self d) simp
  show ?thesis
    by (simp add: get_acts_def att acts_init_tab [OF d] col stk comp_def)
qed

subsection \<open>\<^verbatim>\<open>get_acts\<close>: the result\<close>

text \<open>
  C3. For a non-empty statement list and a list of distinct layer indices that all select
  a block, on a runtime that works on every statement, \<^verbatim>\<open>get_acts\<close> returns a
  dictionary whose keys are exactly the requested layers (in the order requested), and
  the value of each layer has one entry per statement, in input order: entry \<open>i\<close> is the
  last-token activation of statement \<open>i\<close> at the block the layer selects, converted by
  \<^verbatim>\<open>.float()\<close>.
\<close>

theorem get_acts_returns_activations:
  assumes "statements \<noteq> []" and "distinct layers"
    and "list_all (valid_layer (num_layers E)) layers"
    and "list_all (model_ok E w) statements" and "hooks_alive st"
  shows "\<exists>acts st'. get_acts E statements layers st = (Inr acts, st') \<and>
           map fst acts = layers \<and>
           (\<forall>l\<in>set layers. \<exists>vs. map_of acts l = Some vs \<and> length vs = length statements \<and>
              (\<forall>i<length statements.
                 vs ! i = map (to_float E)
                            (last_token_activation E (statements ! i) (block_of (num_layers E) l))))"
proof -
  let ?tab = "map (\<lambda>l. (l, map (\<lambda>s. map (to_float E)
                (last_token_activation E s (block_of (num_layers E) l))) statements)) layers"
  from get_acts_value [OF assms] obtain st' where g: "get_acts E statements layers st = (Inr ?tab, st')"
    by blast
  have k: "map fst ?tab = layers" by (simp add: comp_def)
  have "\<exists>vs. map_of ?tab l = Some vs \<and> length vs = length statements \<and>
              (\<forall>i<length statements.
                 vs ! i = map (to_float E)
                            (last_token_activation E (statements ! i) (block_of (num_layers E) l)))"
    if "l \<in> set layers" for l
    by (simp add: map_of_tab [OF that])
  with g k show ?thesis by blast
qed

theorem get_acts_returns_activations_witness:
  "[''ab'', ''c''] \<noteq> [] \<and> distinct [0, 1 :: int] \<and>
   list_all (valid_layer (num_layers toy_env)) [0, 1] \<and>
   list_all (model_ok toy_env 2) [''ab'', ''c''] \<and> hooks_alive fresh \<and>
   fst (get_acts toy_env [''ab'', ''c''] [0, 1] fresh) =
     Inr [(0, [[98, 0], [99, 0]]), (1, [[98, 1], [99, 1]])] \<and>
   last_token_activation toy_env ''ab'' 1 = [98, 1]"
  using get_acts_returns_activations [of "[''ab'', ''c'']" "[0, 1]" toy_env 2 fresh]
  by (simp add: get_acts_def Hook_init_def layers_getitem_def register_forward_hook_def
      acts_init_def toy_env_def fresh_def forward_def slot_get_def numeral_2_eq_2
      handle_remove_def valid_layer_def hooks_alive_def model_ok_def block_ok_def
      last_token_activation_def)

subsection \<open>\<^verbatim>\<open>score_probs\<close>\<close>

lemma map_upt_nth: "map (\<lambda>i. f (xs ! i)) [0..<length xs] = map f xs"
  by (rule nth_equalityI) simp_all

lemma score_is_spec_score:
  "tensor_sum E (map (map (softmax_row E)) lg) = spec_score E lg"
proof -
  have "map (\<lambda>b. map (\<lambda>p. softmax_row E (lg ! b ! p)) [0..<length (lg ! b)]) [0..<length lg]
      = map (\<lambda>b. map (softmax_row E) (lg ! b)) [0..<length lg]"
    by (simp only: map_upt_nth)
  also have "\<dots> = map (map (softmax_row E)) lg"
    by (rule map_upt_nth)
  finally show ?thesis by (simp add: spec_score_def)
qed

text \<open>
  C5. \<^verbatim>\<open>score_probs\<close> tokenizes the text, runs exactly one forward pass, on those
  tokens, and returns the scalar obtained from the logits of that pass by normalising
  over the vocabulary at every position and reducing all the values, over all positions
  and all vocabulary entries, to one scalar. Nothing else is applied: no mask, no
  division by the length. This holds for every runtime, whatever its normalisation and
  its reduction compute.
\<close>

theorem score_probs_sums_softmax:
  assumes "encode E text = Inr ids" and "forward E ids st = (Inr lg, st')"
  shows "score_probs E text st = (Inr (spec_score E lg), st') \<and> trace st' = trace st @ [ids]"
proof -
  have "trace st' = trace st @ [ids]"
    using forward_frame [of E ids st] assms(2) by simp
  moreover have "score_probs E text st = (Inr (spec_score E lg), st')"
    using assms by (simp add: score_probs_def score_is_spec_score)
  ultimately show ?thesis by blast
qed

theorem score_probs_sums_softmax_witness:
  "encode toy_env ''ab'' = Inr [97, 98] \<and>
   forward toy_env [97, 98] fresh = (Inr [[[1, 2], [1, 2]]], fresh\<lparr>trace := [[97, 98]]\<rparr>) \<and>
   score_probs toy_env ''ab'' fresh = (Inr (3 / 2), fresh\<lparr>trace := [[97, 98]]\<rparr>) \<and>
   spec_score toy_env [[[1, 2], [1, 2]]] = 3 / 2"
proof -
  have e: "encode toy_env ''ab'' = Inr [97, 98]" by (simp add: toy_env_def)
  have f: "forward toy_env [97, 98] fresh = (Inr [[[1, 2], [1, 2]]], fresh\<lparr>trace := [[97, 98]]\<rparr>)"
    by (simp add: toy_env_def forward_def fresh_def numeral_2_eq_2)
  have s: "spec_score toy_env [[[1, 2], [1, 2]]] = 3 / 2"
    by (simp add: spec_score_def toy_env_def numeral_2_eq_2)
  from score_probs_sums_softmax [OF e f] e f s show ?thesis by simp
qed

subsection \<open>\<^verbatim>\<open>evaluate\<close>\<close>

lemma evaluate_nonempty:
  assumes "statements \<noteq> []"
  shows "evaluate E statements correct_answers incorrect_answers st =
           (Inl (if length (hd statements) = 2 then TypeError else ValueError), st)"
proof -
  from assms obtain x xs where s: "statements = x # xs" by (cases statements) auto
  show ?thesis
  proof (cases "length x = 2")
    case True
    then obtain a b where "x = [a, b]"
      by (metis (no_types) length_0_conv length_Suc_conv numeral_2_eq_2)
    then show ?thesis by (simp add: s evaluate_def evaluate_body_def)
  next
    case False
    then have "unpack_pair x = Inl ValueError"
      by (cases x rule: unpack_pair.cases) auto
    with False show ?thesis by (simp add: s evaluate_def)
  qed
qed

text \<open>
  C1. The claim is that \<^verbatim>\<open>evaluate\<close> returns one label per statement. The loop header
  of line 88 unpacks each statement, a string, into \<open>i\<close> and \<open>statement\<close>, so on every
  non-empty statement list the function raises at its first statement and returns no
  label: \<^verbatim>\<open>ValueError\<close> when that statement does not have exactly two characters,
  \<^verbatim>\<open>TypeError\<close> (a list subscripted by a string) when it has. No forward pass has
  run by then: the state is unchanged.
\<close>

theorem evaluate_nonempty_raises:
  assumes "statements \<noteq> []"
  shows "evaluate E statements correct_answers incorrect_answers st =
           (Inl (if length (hd statements) = 2 then TypeError else ValueError), st)"
  using assms by (rule evaluate_nonempty)

theorem evaluate_nonempty_raises_witness:
  "[''ab'', ''The sky is''] \<noteq> [] \<and>
   evaluate toy_env [''ab'', ''The sky is''] [''x'', ''blue''] [''p'', ''green''] fresh = (Inl TypeError, fresh) \<and>
   evaluate toy_env [''The sky is''] [''blue''] [''green''] fresh = (Inl ValueError, fresh)"
  using evaluate_nonempty_raises [of "[''ab'', ''The sky is'']" toy_env "[''x'', ''blue'']" "[''p'', ''green'']" fresh]
    evaluate_nonempty_raises [of "[''The sky is'']" toy_env "[''blue'']" "[''green'']" fresh]
  by simp

text \<open>
  C4. The claim is that for statement \<open>i\<close> the completions scored are the statement with
  its own correct answer and with each of its own incorrect answers. On the statements
  \<open>''ab''\<close> and \<open>''cd''\<close> the function raises at the first one before anything is scored
  (the state, and with it the record of forward passes, is unchanged). The loop body
  itself, run with the integer index 0 that an index-paired iteration would bind, scores
  \<open>''ab x''\<close> and then one completion per element of the whole \<open>incorrect_answers\<close> list,
  \<open>''ab p''\<close> and \<open>''ab q''\<close>: line 92 iterates over the list of all statements' entries,
  not over the entry of statement \<open>i\<close>.
\<close>

theorem evaluate_scores_no_completion:
  "evaluate toy_env [''ab'', ''cd''] [''x'', ''y''] [''p'', ''q''] fresh = (Inl TypeError, fresh) \<and>
   evaluate_body toy_env (PInt 0) ''ab'' [''x'', ''y''] [''p'', ''q''] [Zero, Zero] fresh =
     (Inr [Label False, Zero],
      fresh\<lparr>trace := [map of_char ''ab x'', map of_char ''ab p'', map of_char ''ab q'']\<rparr>)"
  by (simp add: evaluate_def evaluate_body_def score_probs_def toy_env_def forward_def fresh_def
      numeral_2_eq_2)

subsection \<open>The driver\<close>

lemma range25_first: "0 < n \<Longrightarrow> range25 0 n = 0 # range25 25 n"
  by (subst range25.simps) simp

lemma attach_hooks_trace: "trace (snd (attach_hooks E layers hh st)) = trace st"
proof (induction layers arbitrary: hh st)
  case Nil
  show ?case by simp
next
  case (Cons l ls)
  obtain hooks handles where hh: "hh = (hooks, handles)" by (cases hh) auto
  show ?case
  proof (cases "layers_getitem (num_layers E) l")
    case (Inl e)
    then show ?thesis by (simp add: hh Hook_init_def)
  next
    case (Inr b)
    then show ?thesis
      by (simp add: hh Hook_init_def register_forward_hook_def Cons.IH)
  qed
qed

lemma collect_acts_trace:
  "collect_acts E layers hooks statements acts st = (Inr a, st') \<Longrightarrow>
   length (trace st') = length (trace st) + length statements"
proof (induction statements arbitrary: acts st)
  case Nil
  then show ?case by simp
next
  case (Cons s ss)
  from Cons.prems obtain ids where ids: "encode E s = Inr ids"
    by (cases "encode E s") auto
  obtain r st1 where f: "forward E ids st = (r, st1)" by (cases "forward E ids st") auto
  from forward_frame [of E ids st] f have t: "trace st1 = trace st @ [ids]" by simp
  from Cons.prems ids f obtain lg where r: "r = Inr lg" by (cases r) auto
  from Cons.prems ids f r obtain acts' where
    rd: "read_hooks (zip layers hooks) st1 acts = Inr acts'"
    by (cases "read_hooks (zip layers hooks) st1 acts") auto
  from Cons.prems have "collect_acts E layers hooks ss acts' st1 = (Inr a, st')"
    by (simp add: ids f r rd)
  from Cons.IH [OF this] t show ?case by simp
qed

lemma get_acts_trace:
  assumes "get_acts E statements layers st = (Inr a, st')"
  shows "length (trace st') = length (trace st) + length statements"
proof -
  obtain r0 st1 where att: "attach_hooks E layers ([], []) st = (r0, st1)"
    by (cases "attach_hooks E layers ([], []) st") auto
  from attach_hooks_trace [of E layers "([], [])" st] att have t1: "trace st1 = trace st" by simp
  from assms att obtain hooks handles where r0: "r0 = Inr (hooks, handles)"
    by (cases r0) (auto simp: get_acts_def)
  obtain r2 st2 where col: "collect_acts E layers hooks statements (acts_init layers) st1 = (r2, st2)"
    by (cases "collect_acts E layers hooks statements (acts_init layers) st1") auto
  from assms att r0 col obtain acts where r2: "r2 = Inr acts"
    by (cases r2) (auto simp: get_acts_def)
  from assms att r0 col r2 have "st' = fold handle_remove handles st2"
    by (auto simp: get_acts_def split: sum.splits)
  then have "trace st' = trace st2" by (simp add: fold_handle_remove)
  with collect_acts_trace [OF col [unfolded r2]] t1 show ?thesis by simp
qed

text \<open>
  C6. The claim is that the driver cuts a dataset of \<open>N\<close> statements into \<open>ceil(N/25)\<close>
  chunks. The chunk starts of the loop are those of such a partition (\<open>range25_eq\<close>,
  \<open>concat_slices\<close>), but each iteration calls \<^verbatim>\<open>evaluate\<close> on its chunk, and
  \<^verbatim>\<open>evaluate\<close> raises on every non-empty chunk. So on every non-empty dataset the driver
  does exactly this: it runs \<^verbatim>\<open>get_acts\<close> on the first 25 statements and, if that
  returns, raises in \<^verbatim>\<open>evaluate\<close>. No file is saved and no later chunk is cut.
\<close>

theorem driver_stops_in_first_chunk:
  assumes "statements \<noteq> []"
  shows "main_dataset E layers_arg statements correct_answer incorrect_answers st =
     (case get_acts E (take 25 statements) (resolve_layers (num_layers E) layers_arg) st of
        (Inl e, st1) \<Rightarrow> (Inl e, [], st1)
      | (Inr acts, st1) \<Rightarrow>
          (Inl (if length (hd statements) = 2 then TypeError else ValueError), [], st1))"
proof -
  from assms have r: "range25 0 (length statements) = 0 # range25 25 (length statements)"
    by (simp add: range25_first)
  have sl: "slice statements 0 (0 + 25) = take 25 statements" by (simp add: slice_def)
  from assms have ne: "take 25 statements \<noteq> []" and hd: "hd (take 25 statements) = hd statements"
    by (cases statements; simp)+
  show ?thesis
    unfolding main_dataset_def r main_loop.simps sl
    by (simp add: evaluate_nonempty [OF ne] hd del: main_loop.simps split: prod.splits sum.splits)
qed

theorem driver_stops_in_first_chunk_witness:
  "replicate 26 ''The sky is'' \<noteq> [] \<and>
   fst (main_dataset toy_env [0] (replicate 26 ''The sky is'') (replicate 26 ''blue'')
          (replicate 26 ''green'') fresh) = Inl ValueError \<and>
   fst (snd (main_dataset toy_env [0] (replicate 26 ''The sky is'') (replicate 26 ''blue'')
          (replicate 26 ''green'') fresh)) = [] \<and>
   length (trace (snd (snd (main_dataset toy_env [0] (replicate 26 ''The sky is'')
          (replicate 26 ''blue'') (replicate 26 ''green'') fresh)))) = 25"
proof -
  let ?S = "replicate 26 ''The sky is''"
  have ne: "?S \<noteq> []" by simp
  have t: "take 25 ?S = replicate 25 ''The sky is''" by simp
  have rl: "resolve_layers (num_layers toy_env) [0] = [0]" by (simp add: resolve_layers_def)
  have ok: "model_ok toy_env 2 ''The sky is''"
    by (simp add: model_ok_def block_ok_def toy_env_def numeral_2_eq_2)
  have "\<exists>st1. get_acts toy_env (replicate 25 ''The sky is'') [0] fresh =
      (Inr (map (\<lambda>l. (l, map (\<lambda>s. map (to_float toy_env)
              (last_token_activation toy_env s (block_of (num_layers toy_env) l)))
                (replicate 25 ''The sky is''))) [0]), st1)"
  proof (rule get_acts_value [where w = 2])
    show "replicate 25 ''The sky is'' \<noteq> []" by simp
    show "distinct [0 :: int]" by simp
    show "list_all (valid_layer (num_layers toy_env)) [0]"
      by (simp add: valid_layer_def toy_env_def)
    show "list_all (model_ok toy_env 2) (replicate 25 ''The sky is'')"
      using ok by (simp add: list_all_iff)
    show "hooks_alive fresh" by (simp add: hooks_alive_def fresh_def)
  qed
  then obtain a st1 where g: "get_acts toy_env (replicate 25 ''The sky is'') [0] fresh = (Inr a, st1)"
    by blast
  from get_acts_trace [OF g] have "length (trace st1) = 25" by (simp add: fresh_def)
  with driver_stops_in_first_chunk [OF ne, of toy_env "[0]" "replicate 26 ''blue''"
      "replicate 26 ''green''" fresh] g
  show ?thesis by (simp only: t rl) simp
qed

end
